theory Spec2Isabelle
  imports Main "HOL-Library.Multiset" "HOL-Library.Word"
begin

section \<open>Data model (api.go)\<close>

text \<open>
  Go's \<^verbatim>\<open>int64\<close> is a 64-bit word; identifiers are only compared and used as map keys.
  A \<^verbatim>\<open>time.Time\<close> is an instant; \<^verbatim>\<open>Before\<close> is the strict order of instants, so an
  instant is an integer and \<^verbatim>\<open>a.Before(b)\<close> is \<open>a < b\<close>. Go's \<^verbatim>\<open>int\<close> is modelled by
  \<open>int\<close>: the only arithmetic on it is counting the elements of a slice.
  A field whose name is used by an earlier record carries the record's name as a prefix.
\<close>

type_synonym int64 = "64 word"
type_synonym Time = int

record User =
  Login :: string

record Comment =
  ID :: int64
  Body :: string
  CreatedAt :: Time
  User :: User
  DiffHunk :: string
  Path :: string
  CommitID :: string
  OriginalCommitID :: string
  Line :: "int option"
  OriginalLine :: "int option"
  InReplyToID :: "int64 option"
  PullRequestReviewID :: int64

record CommentThread =
  Comments :: "Comment list"

record Review =
  Review_ID :: int64
  Review_Body :: string
  State :: string
  SubmittedAt :: Time
  Review_User :: User
  Threads :: "CommentThread list"
  ReplyCount :: int

record CheckCounts =
  Succeeded :: int
  Failed :: int
  Pending :: int
  Skipped :: int

record Commit =
  SHA :: string
  Message :: string
  Author :: User
  Checks :: CheckCounts
  Commit_CreatedAt :: Time

record PullRequest =
  Number :: int
  Title :: string
  PR_Body :: string
  PR_CreatedAt :: Time
  PR_User :: User
  PR_Comments :: "Comment list"
  PR_Reviews :: "Review list"
  PR_Commits :: "Commit list"

text \<open>
  \<^verbatim>\<open>TimelineItem\<close>: the three pointers are \<^verbatim>\<open>nil\<close> or point at a private copy of the
  wrapped value, so each is an option.
\<close>

record TimelineItem =
  Type :: string
  Item_CreatedAt :: Time
  Item_Comment :: "Comment option"
  Item_Review :: "Review option"
  Item_Commit :: "Commit option"

section \<open>sort.Slice\<close>

text \<open>
  \<^verbatim>\<open>sort.Slice(x, less)\<close> belongs to Go's standard library, not to this repository. It
  sees the slice only through \<^verbatim>\<open>less(i, j)\<close> and rearranges it by swapping positions, so
  its effect on a slice of length \<open>n\<close> is an arrangement of the positions \<open>0..<n\<close> chosen
  from the answers of \<open>less\<close>: position \<open>k\<close> of the result holds the element that stood at
  position \<open>alg n less ! k\<close>. The algorithm \<open>alg\<close> is a parameter of every function that
  sorts. Its documented contract is \<open>sorts\<close>: for a \<open>less\<close> that is a strict weak ordering
  the result is a rearrangement in which no element is less than an earlier one. The
  documentation promises no stability.
\<close>

type_synonym sorter = "nat \<Rightarrow> (nat \<Rightarrow> nat \<Rightarrow> bool) \<Rightarrow> nat list"

definition sort_Slice :: "sorter \<Rightarrow> 'a list \<Rightarrow> ('a \<Rightarrow> 'a \<Rightarrow> bool) \<Rightarrow> 'a list" where
  "sort_Slice alg x lt =
     map (\<lambda>i. x ! i) (alg (length x) (\<lambda>i j. lt (x ! i) (x ! j)))"

definition less_ok :: "(nat \<Rightarrow> nat \<Rightarrow> bool) \<Rightarrow> bool" where
  "less_ok lt \<longleftrightarrow>
     (\<forall>i. \<not> lt i i) \<and>
     (\<forall>i j k. lt i j \<and> lt j k \<longrightarrow> lt i k) \<and>
     (\<forall>i j k. \<not> lt i j \<and> \<not> lt j k \<longrightarrow> \<not> lt i k)"

definition sorts :: "sorter \<Rightarrow> bool" where
  "sorts alg \<longleftrightarrow>
     (\<forall>n lt. less_ok lt \<longrightarrow>
        mset (alg n lt) = mset [0..<n] \<and> sorted_wrt (\<lambda>i j. \<not> lt j i) (alg n lt))"

text \<open>
  Two algorithms that meet the contract. \<open>insertion_sorter\<close> is insertion sort: each
  element in turn moves left while it is less than its left neighbour (the sorted prefix
  is kept reversed, nearest neighbour first); it keeps equal elements in their original
  order. \<open>reversing_sorter\<close> is the same insertion sort started from the slice reversed:
  it leaves equal elements in the opposite of their original order.
\<close>

fun sift :: "(nat \<Rightarrow> nat \<Rightarrow> bool) \<Rightarrow> nat \<Rightarrow> nat list \<Rightarrow> nat list" where
  "sift lt x [] = [x]"
| "sift lt x (y # ys) = (if lt x y then y # sift lt x ys else x # y # ys)"

definition insertion :: "(nat \<Rightarrow> nat \<Rightarrow> bool) \<Rightarrow> nat list \<Rightarrow> nat list" where
  "insertion lt xs = rev (foldl (\<lambda>acc x. sift lt x acc) [] xs)"

definition insertion_sorter :: sorter where
  "insertion_sorter n lt = insertion lt [0..<n]"

definition reversing_sorter :: sorter where
  "reversing_sorter n lt = insertion lt (rev [0..<n])"

section \<open>groupIntoThreads (api.go, lines 340-380)\<close>

text \<open>
  A Go map read at a missing key gives the zero value: the \<^verbatim>\<open>nil\<close> slice for a map of
  slices, \<open>0\<close> for a map of counters.
\<close>

definition slice_at :: "('k \<rightharpoonup> 'v list) \<Rightarrow> 'k \<Rightarrow> 'v list" where
  "slice_at m k = (case m k of None \<Rightarrow> [] | Some v \<Rightarrow> v)"

definition int_at :: "('k \<rightharpoonup> int) \<Rightarrow> 'k \<Rightarrow> int" where
  "int_at m k = (case m k of None \<Rightarrow> 0 | Some v \<Rightarrow> v)"

text \<open>Lines 341-344: a later comment with the same id replaces an earlier one.\<close>

definition commentByID :: "Comment list \<Rightarrow> (int64 \<rightharpoonup> Comment)" where
  "commentByID comments = fold (\<lambda>c m. m(ID c \<mapsto> c)) comments Map.empty"

text \<open>
  Lines 355-361, the walk up the parent chain. The loop has no bound: where it does
  not return, the value is \<open>None\<close>.
\<close>

partial_function (option) walk_parents :: "(int64 \<rightharpoonup> Comment) \<Rightarrow> int64 \<Rightarrow> int64 option" where
  "walk_parents byID rootID =
     (case byID rootID of
        None \<Rightarrow> Some rootID
      | Some parent \<Rightarrow>
          (case InReplyToID parent of
             None \<Rightarrow> Some rootID
           | Some next \<Rightarrow> walk_parents byID next))"

text \<open>
  Lines 349-364: one iteration on the state \<open>(rootToReplies, rootIDs)\<close>, and the loop.
\<close>

type_synonym groups = "(int64 \<rightharpoonup> Comment list) \<times> int64 list"

fun group_step :: "(int64 \<rightharpoonup> Comment) \<Rightarrow> Comment \<Rightarrow> groups \<Rightarrow> groups option" where
  "group_step byID c (rootToReplies, rootIDs) =
     (case InReplyToID c of
        None \<Rightarrow> Some (rootToReplies(ID c \<mapsto> [c]), rootIDs @ [ID c])
      | Some p \<Rightarrow>
          (case walk_parents byID p of
             None \<Rightarrow> None
           | Some rootID \<Rightarrow>
               Some (rootToReplies(rootID \<mapsto> slice_at rootToReplies rootID @ [c]), rootIDs)))"

fun group_loop :: "(int64 \<rightharpoonup> Comment) \<Rightarrow> Comment list \<Rightarrow> groups \<Rightarrow> groups option" where
  "group_loop byID [] s = Some s"
| "group_loop byID (c # cs) s =
     (case group_step byID c s of None \<Rightarrow> None | Some s' \<Rightarrow> group_loop byID cs s')"

text \<open>
  The effective root of a comment: its own id when it has no parent reference, else
  the id at which the walk from its parent stops.
\<close>

definition effective_root :: "(int64 \<rightharpoonup> Comment) \<Rightarrow> Comment \<Rightarrow> int64 option" where
  "effective_root byID c =
     (case InReplyToID c of None \<Rightarrow> Some (ID c) | Some p \<Rightarrow> walk_parents byID p)"

text \<open>
  The parent references of a collection, as edges from a comment's id to the id it
  replies to.
\<close>

definition parent_edges :: "Comment list \<Rightarrow> (int64 \<times> int64) list" where
  "parent_edges comments =
     concat (map (\<lambda>c. case InReplyToID c of None \<Rightarrow> [] | Some p \<Rightarrow> [(ID c, p)]) comments)"

text \<open>Lines 341-364: the lookup is built, then the loop runs from the empty state.\<close>

definition group_by_root :: "Comment list \<Rightarrow> groups option" where
  "group_by_root comments = group_loop (commentByID comments) comments (Map.empty, [])"

text \<open>
  Lines 371-377. \<^verbatim>\<open>replies\<close> shares its backing array with the map entry and with the
  thread appended to \<^verbatim>\<open>threads\<close>, and \<^verbatim>\<open>sort.Slice\<close> sorts that array in place: the map
  is the store of the arrays, each iteration sorts the array of its root id, and a
  thread shows what its array holds when the loop ends.
\<close>

fun sort_replies :: "sorter \<Rightarrow> (int64 \<rightharpoonup> Comment list) \<Rightarrow> int64 list \<Rightarrow> (int64 \<rightharpoonup> Comment list)" where
  "sort_replies alg store [] = store"
| "sort_replies alg store (rootID # rest) =
     sort_replies alg
       (store(rootID \<mapsto>
          sort_Slice alg (slice_at store rootID) (\<lambda>a b. CreatedAt a < CreatedAt b)))
       rest"

text \<open>
  Line 367 dereferences \<^verbatim>\<open>commentByID[rootIDs[i]]\<close>; every root id is the id of an input
  comment (lemma \<open>rootIDs_resolve\<close>), so the pointer is never \<^verbatim>\<open>nil\<close>.
\<close>

definition groupIntoThreads :: "sorter \<Rightarrow> Comment list \<Rightarrow> CommentThread list option" where
  "groupIntoThreads alg comments =
     (case group_by_root comments of
        None \<Rightarrow> None
      | Some (rootToReplies, rootIDs) \<Rightarrow>
          (let byID = commentByID comments;
               sortedIDs = sort_Slice alg rootIDs
                 (\<lambda>a b. CreatedAt (the (byID a)) < CreatedAt (the (byID b)));
               store = sort_replies alg rootToReplies sortedIDs
           in Some (map (\<lambda>rootID. \<lparr>Comments = slice_at store rootID\<rparr>) sortedIDs)))"

section \<open>LoadPR, the annotation of the reviews (api.go, lines 306-326)\<close>

text \<open>
  What \<^verbatim>\<open>LoadPR\<close> computes from the fetched reviews and the fetched review comments: the
  two maps, and the reviews with their threads and reply counts. It returns when
  \<^verbatim>\<open>groupIntoThreads\<close> does.
\<close>

definition threadsByReview :: "CommentThread list \<Rightarrow> (int64 \<rightharpoonup> CommentThread list)" where
  "threadsByReview threads =
     fold (\<lambda>thread m.
             if length (Comments thread) > 0
             then (let reviewID = PullRequestReviewID (Comments thread ! 0)
                   in m(reviewID \<mapsto> slice_at m reviewID @ [thread]))
             else m)
          threads Map.empty"

definition replyCountByReview :: "Comment list \<Rightarrow> (int64 \<rightharpoonup> int)" where
  "replyCountByReview reviewComments =
     fold (\<lambda>c m.
             if InReplyToID c \<noteq> None
             then m(PullRequestReviewID c \<mapsto> int_at m (PullRequestReviewID c) + 1)
             else m)
          reviewComments Map.empty"

definition annotate_reviews :: "sorter \<Rightarrow> Review list \<Rightarrow> Comment list \<Rightarrow> Review list option" where
  "annotate_reviews alg reviews reviewComments =
     (case groupIntoThreads alg reviewComments of
        None \<Rightarrow> None
      | Some threads \<Rightarrow>
          Some (map (\<lambda>r. r\<lparr>Threads := slice_at (threadsByReview threads) (Review_ID r),
                            ReplyCount := int_at (replyCountByReview reviewComments) (Review_ID r)\<rparr>)
                    reviews))"

section \<open>RenderPR, the timeline (api.go, lines 401-432)\<close>

definition comment_item :: "Comment \<Rightarrow> TimelineItem" where
  "comment_item comment =
     \<lparr>Type = ''comment'', Item_CreatedAt = CreatedAt comment,
      Item_Comment = Some comment, Item_Review = None, Item_Commit = None\<rparr>"

definition review_item :: "Review \<Rightarrow> TimelineItem" where
  "review_item review =
     \<lparr>Type = ''review'', Item_CreatedAt = SubmittedAt review,
      Item_Comment = None, Item_Review = Some review, Item_Commit = None\<rparr>"

definition commit_item :: "Commit \<Rightarrow> TimelineItem" where
  "commit_item commit =
     \<lparr>Type = ''commit'', Item_CreatedAt = Commit_CreatedAt commit,
      Item_Comment = None, Item_Review = None, Item_Commit = Some commit\<rparr>"

definition timeline_items :: "PullRequest \<Rightarrow> TimelineItem list" where
  "timeline_items pr =
     map comment_item (PR_Comments pr) @ map review_item (PR_Reviews pr) @
     map commit_item (PR_Commits pr)"

definition timeline :: "sorter \<Rightarrow> PullRequest \<Rightarrow> TimelineItem list" where
  "timeline alg pr =
     sort_Slice alg (timeline_items pr) (\<lambda>a b. Item_CreatedAt a < Item_CreatedAt b)"

section \<open>Example inputs\<close>

text \<open>Values with the fields the algorithms read; every other field is empty.\<close>

definition comment_of :: "int64 \<Rightarrow> Time \<Rightarrow> int64 option \<Rightarrow> int64 \<Rightarrow> Comment" where
  "comment_of i t parent review =
     \<lparr>ID = i, Body = [], CreatedAt = t, User = \<lparr>Login = []\<rparr>, DiffHunk = [], Path = [],
      CommitID = [], OriginalCommitID = [], Line = None, OriginalLine = None,
      InReplyToID = parent, PullRequestReviewID = review\<rparr>"

definition review_of :: "int64 \<Rightarrow> Time \<Rightarrow> Review" where
  "review_of i t =
     \<lparr>Review_ID = i, Review_Body = [], State = ''COMMENTED'', SubmittedAt = t,
      Review_User = \<lparr>Login = []\<rparr>, Threads = [], ReplyCount = 0\<rparr>"

definition commit_of :: "string \<Rightarrow> Time \<Rightarrow> Commit" where
  "commit_of sha t =
     \<lparr>SHA = sha, Message = [], Author = \<lparr>Login = []\<rparr>,
      Checks = \<lparr>Succeeded = 0, Failed = 0, Pending = 0, Skipped = 0\<rparr>,
      Commit_CreatedAt = t\<rparr>"

text \<open>
  A root comment of review 101 at time 10 and a reply to it, of review 102, at time 11;
  the two reviews.
\<close>

definition two_reviews_comments :: "Comment list" where
  "two_reviews_comments = [comment_of 1 10 None 101, comment_of 2 11 (Some 1) 102]"

definition two_reviews :: "Review list" where
  "two_reviews = [review_of 101 20, review_of 102 21]"

text \<open>A root comment that names no review (the id decodes to 0), and one review.\<close>

definition unowned_comments :: "Comment list" where
  "unowned_comments = [comment_of 1 10 None 0]"

definition one_review :: "Review list" where
  "one_review = [review_of 101 20]"

text \<open>
  A pull request of thirteen timeline items whose timestamps, in the order comments,
  reviews, commits, are 2, 9, 9, 3, 4, 5, 6, 7, 8, 10, 11, 12, 1: the second comment and the
  first review share the timestamp 9. And a pull request of one comment, one review and
  one commit.
\<close>

definition tie_pr :: PullRequest where
  "tie_pr =
     \<lparr>Number = 1, Title = [], PR_Body = [], PR_CreatedAt = 0, PR_User = \<lparr>Login = []\<rparr>,
      PR_Comments = [comment_of 1 2 None 0, comment_of 2 9 None 0],
      PR_Reviews = [review_of 101 9, review_of 102 3, review_of 103 4, review_of 104 5,
                    review_of 105 6],
      PR_Commits = [commit_of ''a'' 7, commit_of ''b'' 8, commit_of ''c'' 10,
                    commit_of ''d'' 11, commit_of ''e'' 12, commit_of ''f'' 1]\<rparr>"

definition small_pr :: PullRequest where
  "small_pr =
     \<lparr>Number = 1, Title = [], PR_Body = [], PR_CreatedAt = 0, PR_User = \<lparr>Login = []\<rparr>,
      PR_Comments = [comment_of 1 30 None 0],
      PR_Reviews = [review_of 101 20],
      PR_Commits = [commit_of ''a'' 10]\<rparr>"

text \<open>
  Two comments that reply to each other. And a root comment, a reply to the id 99 that
  no comment carries, and a reply to that reply.
\<close>

definition cycle_comments :: "Comment list" where
  "cycle_comments = [comment_of 1 10 (Some 2) 0, comment_of 2 11 (Some 1) 0]"

definition dangling_chain :: "Comment list" where
  "dangling_chain =
     [comment_of 1 10 None 0, comment_of 2 11 (Some 99) 0, comment_of 3 12 (Some 2) 0]"

text \<open>
  A reply stamped earlier than the root it replies to. Thirteen root comments with the
  timestamps of \<open>tie_pr\<close>. And two roots, the later one first, with a reply to it.
\<close>

definition early_reply :: "Comment list" where
  "early_reply = [comment_of 1 10 None 0, comment_of 2 5 (Some 1) 0]"

definition tie_comments :: "Comment list" where
  "tie_comments =
     [comment_of 1 2 None 0, comment_of 2 9 None 0, comment_of 3 9 None 0,
      comment_of 4 3 None 0, comment_of 5 4 None 0, comment_of 6 5 None 0,
      comment_of 7 6 None 0, comment_of 8 7 None 0, comment_of 9 8 None 0,
      comment_of 10 10 None 0, comment_of 11 11 None 0, comment_of 12 12 None 0,
      comment_of 13 1 None 0]"

definition two_threads :: "Comment list" where
  "two_threads = [comment_of 1 20 None 0, comment_of 2 10 None 0, comment_of 3 30 (Some 1) 0]"

text \<open>A root comment, a reply to it, and a reply to the id 99 that no comment carries.\<close>

definition mixed_comments :: "Comment list" where
  "mixed_comments =
     [comment_of 1 10 None 0, comment_of 2 11 (Some 1) 0, comment_of 3 12 (Some 99) 0]"

section \<open>Properties of the sorting algorithms\<close>

lemma mset_sift: "mset (sift lt x acc) = add_mset x (mset acc)"
  by (induction acc) auto

lemma set_sift: "set (sift lt x acc) = insert x (set acc)"
  by (induction acc) auto

lemma less_ok_asym: "less_ok lt \<Longrightarrow> lt a b \<Longrightarrow> \<not> lt b a"
  unfolding less_ok_def by blast

lemma less_ok_negtrans: "less_ok lt \<Longrightarrow> \<not> lt a b \<Longrightarrow> \<not> lt b c \<Longrightarrow> \<not> lt a c"
  unfolding less_ok_def by blast

lemma sorted_sift:
  assumes ok: "less_ok lt" and srt: "sorted_wrt (\<lambda>a b. \<not> lt a b) acc"
  shows "sorted_wrt (\<lambda>a b. \<not> lt a b) (sift lt x acc)"
  using srt
proof (induction acc)
  case Nil
  then show ?case by simp
next
  case (Cons y ys)
  show ?case
  proof (cases "lt x y")
    case True
    then have "\<not> lt y x" using ok less_ok_asym by blast
    with Cons True show ?thesis by (auto simp: set_sift)
  next
    case False
    then have "\<forall>z\<in>set ys. \<not> lt x z"
      using Cons.prems ok less_ok_negtrans by fastforce
    with Cons.prems False show ?thesis by auto
  qed
qed

lemma mset_foldl_sift: "mset (foldl (\<lambda>acc x. sift lt x acc) acc xs) = mset acc + mset xs"
  by (induction xs arbitrary: acc) (auto simp: mset_sift)

lemma sorted_foldl_sift:
  "less_ok lt \<Longrightarrow> sorted_wrt (\<lambda>a b. \<not> lt a b) acc \<Longrightarrow>
   sorted_wrt (\<lambda>a b. \<not> lt a b) (foldl (\<lambda>acc x. sift lt x acc) acc xs)"
  by (induction xs arbitrary: acc) (auto simp: sorted_sift)

lemma mset_insertion: "mset (insertion lt xs) = mset xs"
  by (simp add: insertion_def mset_foldl_sift)

lemma sorted_insertion: "less_ok lt \<Longrightarrow> sorted_wrt (\<lambda>i j. \<not> lt j i) (insertion lt xs)"
  using sorted_foldl_sift [of lt "[]" xs] by (simp add: insertion_def sorted_wrt_rev)

lemma sorts_insertion_sorter: "sorts insertion_sorter"
  by (simp add: sorts_def insertion_sorter_def mset_insertion sorted_insertion)

lemma sorts_reversing_sorter: "sorts reversing_sorter"
  by (simp add: sorts_def reversing_sorter_def mset_insertion sorted_insertion)

lemma less_ok_key: "less_ok (\<lambda>i j. (key i :: int) < key j)"
  by (auto simp: less_ok_def)

lemma mset_sort_Slice:
  assumes "sorts alg"
  shows "mset (sort_Slice alg xs (\<lambda>a b. (key a :: int) < key b)) = mset xs"
proof -
  let ?lt = "\<lambda>i j. key (xs ! i) < key (xs ! j)"
  have "less_ok ?lt" by (rule less_ok_key)
  with assms have "mset (alg (length xs) ?lt) = mset [0..<length xs]"
    by (simp add: sorts_def)
  then have "image_mset (\<lambda>i. xs ! i) (mset (alg (length xs) ?lt)) = image_mset (\<lambda>i. xs ! i) (mset [0..<length xs])"
    by simp
  then show ?thesis
    by (simp add: sort_Slice_def map_nth del: mset_upt flip: mset_map)
qed

lemma sorted_sort_Slice:
  assumes "sorts alg"
  shows "sorted (map key (sort_Slice alg xs (\<lambda>a b. (key a :: int) < key b)))"
proof -
  let ?lt = "\<lambda>i j. key (xs ! i) < key (xs ! j)"
  have "less_ok ?lt" by (rule less_ok_key)
  with assms have "sorted_wrt (\<lambda>i j. \<not> ?lt j i) (alg (length xs) ?lt)"
    by (simp add: sorts_def)
  then show ?thesis
    by (simp add: sort_Slice_def sorted_map sorted_wrt_map not_less)
qed

text \<open>What the two algorithms do depends on the keys only.\<close>

lemma sift_cong:
  "\<forall>y\<in>set acc. lt x y = lt' x y \<Longrightarrow> sift lt x acc = sift lt' x acc"
  by (induction acc) auto

lemma foldl_sift_cong:
  "\<forall>i\<in>set xs \<union> set acc. \<forall>j\<in>set xs \<union> set acc. lt i j = lt' i j \<Longrightarrow>
   foldl (\<lambda>acc x. sift lt x acc) acc xs = foldl (\<lambda>acc x. sift lt' x acc) acc xs"
proof (induction xs arbitrary: acc)
  case Nil
  then show ?case by simp
next
  case (Cons x xs)
  have "sift lt x acc = sift lt' x acc"
    using Cons.prems by (intro sift_cong) auto
  moreover have "foldl (\<lambda>acc x. sift lt x acc) (sift lt' x acc) xs =
      foldl (\<lambda>acc x. sift lt' x acc) (sift lt' x acc) xs"
    using Cons.prems by (intro Cons.IH) (auto simp: set_sift)
  ultimately show ?case by simp
qed

lemma insertion_cong:
  "\<forall>i\<in>set xs. \<forall>j\<in>set xs. lt i j = lt' i j \<Longrightarrow> insertion lt xs = insertion lt' xs"
  using foldl_sift_cong [of xs "[]" lt lt'] by (simp add: insertion_def)

lemma sort_Slice_reversing_keys:
  "sort_Slice reversing_sorter x (\<lambda>a b. (key a :: int) < key b) =
   map (\<lambda>i. x ! i) (insertion (\<lambda>i j. map key x ! i < map key x ! j) (rev [0..<length x]))"
  unfolding sort_Slice_def reversing_sorter_def
  by (rule arg_cong [where f = "map (\<lambda>i. x ! i)"], rule insertion_cong) simp

section \<open>Properties of the grouping loop\<close>

lemma slice_at_upd [simp]: "slice_at (m(k \<mapsto> v)) k' = (if k' = k then v else slice_at m k')"
  by (simp add: slice_at_def)

lemma slice_at_empty [simp]: "slice_at Map.empty k = []"
  by (simp add: slice_at_def)

lemma commentByID_fold:
  "fold (\<lambda>c m. m(ID c \<mapsto> c)) cs m = m ++ map_of (rev (map (\<lambda>c. (ID c, c)) cs))"
  by (induction cs arbitrary: m) (auto simp: map_add_def fun_eq_iff split: option.splits)

lemma commentByID_map_of: "commentByID cs = map_of (rev (map (\<lambda>c. (ID c, c)) cs))"
  by (simp add: commentByID_def commentByID_fold)

lemma commentByID_Some: "commentByID cs k = Some c \<Longrightarrow> c \<in> set cs \<and> ID c = k"
  by (auto simp: commentByID_map_of dest!: map_of_SomeD)

lemma commentByID_None: "commentByID cs k = None \<longleftrightarrow> k \<notin> ID ` set cs"
  by (auto simp: commentByID_map_of map_of_eq_None_iff image_iff)

lemma commentByID_distinct:
  "distinct (map ID cs) \<Longrightarrow> c \<in> set cs \<Longrightarrow> commentByID cs (ID c) = Some c"
  unfolding commentByID_map_of
  by (rule map_of_is_SomeI) (auto simp: rev_map [symmetric] comp_def distinct_rev)

lemma group_step_Some:
  "group_step byID c (R, ids) = Some (R', ids') \<Longrightarrow>
   \<exists>k. effective_root byID c = Some k \<and>
       ids' = (if InReplyToID c = None then ids @ [ID c] else ids) \<and>
       R' = R(k \<mapsto> (if InReplyToID c = None then [c] else slice_at R k @ [c]))"
  by (auto simp: effective_root_def split: option.splits)

lemma group_step_None:
  "group_step byID c s = None \<longleftrightarrow> effective_root byID c = None"
  by (cases s) (auto simp: effective_root_def split: option.splits)

lemma group_loop_None:
  "group_loop byID cs s = None \<longleftrightarrow> (\<exists>c\<in>set cs. effective_root byID c = None)"
proof (induction cs arbitrary: s)
  case Nil
  then show ?case by simp
next
  case (Cons c cs)
  show ?case
  proof (cases "group_step byID c s")
    case None
    then show ?thesis using group_step_None [of byID c s] by simp
  next
    case (Some s')
    then have "effective_root byID c \<noteq> None"
      using group_step_None [of byID c s] by simp
    with Some Cons.IH [of s'] show ?thesis by auto
  qed
qed

lemma group_loop_append:
  "group_loop byID (xs @ ys) s =
     (case group_loop byID xs s of None \<Rightarrow> None | Some s' \<Rightarrow> group_loop byID ys s')"
  by (induction xs arbitrary: s) (auto split: option.splits)

lemma group_loop_rootIDs:
  "group_loop byID cs (R, ids) = Some (R', ids') \<Longrightarrow>
   ids' = ids @ map ID (filter (\<lambda>c. InReplyToID c = None) cs)"
proof (induction cs arbitrary: R ids)
  case Nil
  then show ?case by simp
next
  case (Cons c cs)
  from Cons.prems obtain R1 ids1 where
    s: "group_step byID c (R, ids) = Some (R1, ids1)" and l: "group_loop byID cs (R1, ids1) = Some (R', ids')"
    by (auto split: option.splits)
  from group_step_Some [OF s] Cons.IH [OF l] show ?case by auto
qed

lemma rootIDs_resolve:
  assumes "group_by_root comments = Some (rootToReplies, rootIDs)" and "k \<in> set rootIDs"
  shows "commentByID comments k \<noteq> None"
proof -
  from assms(1) have "rootIDs = map ID (filter (\<lambda>c. InReplyToID c = None) comments)"
    using group_loop_rootIDs [of "commentByID comments" comments Map.empty "[]"]
    by (simp add: group_by_root_def)
  with assms(2) have "k \<in> ID ` set comments" by auto
  then show ?thesis by (simp add: commentByID_None)
qed

lemma group_loop_no_root:
  "group_loop byID cs (R, ids) = Some (R', ids') \<Longrightarrow>
   \<forall>c\<in>set cs. InReplyToID c = None \<longrightarrow> ID c \<noteq> k \<Longrightarrow>
   slice_at R' k = slice_at R k @ filter (\<lambda>c. effective_root byID c = Some k) cs"
proof (induction cs arbitrary: R ids)
  case Nil
  then show ?case by simp
next
  case (Cons c cs)
  from Cons.prems(1) obtain R1 ids1 where
    s: "group_step byID c (R, ids) = Some (R1, ids1)" and l: "group_loop byID cs (R1, ids1) = Some (R', ids')"
    by (auto split: option.splits)
  from Cons.prems(2) have nr: "\<forall>c\<in>set cs. InReplyToID c = None \<longrightarrow> ID c \<noteq> k" by simp
  from group_step_Some [OF s] obtain k' where
    e: "effective_root byID c = Some k'"
    and R1: "R1 = R(k' \<mapsto> (if InReplyToID c = None then [c] else slice_at R k' @ [c]))"
    by blast
  have "InReplyToID c = None \<Longrightarrow> k' \<noteq> k"
    using e Cons.prems(2) by (auto simp: effective_root_def)
  then have "slice_at R1 k = slice_at R k @ (if k' = k then [c] else [])"
    using R1 by auto
  with Cons.IH [OF l nr] e show ?case by auto
qed

lemma group_loop_last_root:
  assumes l: "group_loop byID (pre @ r # post) s = Some (R', ids')"
    and r: "InReplyToID r = None"
    and nr: "\<forall>c\<in>set post. InReplyToID c = None \<longrightarrow> ID c \<noteq> ID r"
  shows "slice_at R' (ID r) = r # filter (\<lambda>c. effective_root byID c = Some (ID r)) post"
proof -
  from l obtain s1 where l1: "group_loop byID (r # post) s1 = Some (R', ids')"
    by (auto simp: group_loop_append split: option.splits)
  obtain R1 ids1 where s1: "s1 = (R1, ids1)" by (cases s1)
  from l1 r have "group_loop byID post (R1(ID r \<mapsto> [r]), ids1 @ [ID r]) = Some (R', ids')"
    by (simp add: s1)
  from group_loop_no_root [OF this nr] show ?thesis by simp
qed

lemma group_loop_members:
  "group_loop byID cs (R, ids) = Some (R', ids') \<Longrightarrow> c \<in> set (slice_at R' k) \<Longrightarrow>
   c \<in> set (slice_at R k) \<or> (c \<in> set cs \<and> effective_root byID c = Some k)"
proof (induction cs arbitrary: R ids)
  case Nil
  then show ?case by simp
next
  case (Cons x cs)
  from Cons.prems(1) obtain R1 ids1 where
    s: "group_step byID x (R, ids) = Some (R1, ids1)" and l: "group_loop byID cs (R1, ids1) = Some (R', ids')"
    by (auto split: option.splits)
  from group_step_Some [OF s] obtain k' where
    e: "effective_root byID x = Some k'"
    and R1: "R1 = R(k' \<mapsto> (if InReplyToID x = None then [x] else slice_at R k' @ [x]))"
    by blast
  have "set (slice_at R1 k) \<subseteq> set (slice_at R k) \<union> (if k' = k then {x} else {})"
    unfolding R1 by (simp add: slice_at_upd)
  with Cons.IH [OF l Cons.prems(2)] e show ?case
    by (auto split: if_splits)
qed

lemma parent_edges_iff:
  "(i, p) \<in> set (parent_edges cs) \<longleftrightarrow> (\<exists>c\<in>set cs. ID c = i \<and> InReplyToID c = Some p)"
  by (force simp: parent_edges_def split: option.splits)

lemma walk_parents_returns:
  assumes "acyclic (set (parent_edges cs))"
  shows "\<exists>r. walk_parents (commentByID cs) p = Some r"
proof -
  have "wf ((set (parent_edges cs))\<inverse>)"
    using assms by (simp add: finite_acyclic_wf_converse)
  then show ?thesis
  proof (induction p rule: wf_induct_rule)
    case (less p)
    show ?case
    proof (cases "commentByID cs p")
      case None
      then show ?thesis by (subst walk_parents.simps) simp
    next
      case (Some c)
      show ?thesis
      proof (cases "InReplyToID c")
        case None
        with Some show ?thesis by (subst walk_parents.simps) simp
      next
        case (Some q)
        from \<open>commentByID cs p = Some c\<close> have "c \<in> set cs" "ID c = p"
          by (auto dest: commentByID_Some)
        with Some have "(p, q) \<in> set (parent_edges cs)"
          by (auto simp: parent_edges_iff)
        then obtain r where "walk_parents (commentByID cs) q = Some r"
          using less.IH [of q] by auto
        with Some \<open>commentByID cs p = Some c\<close> show ?thesis
          by (subst walk_parents.simps) simp
      qed
    qed
  qed
qed

lemma groupIntoThreads_None:
  "groupIntoThreads alg cs = None \<longleftrightarrow> (\<exists>c\<in>set cs. effective_root (commentByID cs) c = None)"
proof -
  have "groupIntoThreads alg cs = None \<longleftrightarrow> group_loop (commentByID cs) cs (Map.empty, []) = None"
    by (simp add: groupIntoThreads_def group_by_root_def Let_def split: option.splits)
  then show ?thesis by (simp only: group_loop_None)
qed

lemma walk_parents_unresolved:
  "byID p = None \<Longrightarrow> walk_parents byID p = Some p"
  by (subst walk_parents.simps) simp

text \<open>The sorting of the groups and the threads that result.\<close>

lemma sort_replies_other:
  "k \<notin> set ids \<Longrightarrow> slice_at (sort_replies alg store ids) k = slice_at store k"
  by (induction ids arbitrary: store) auto

lemma sort_replies_mset:
  "sorts alg \<Longrightarrow> mset (slice_at (sort_replies alg store ids) k) = mset (slice_at store k)"
proof (induction ids arbitrary: store)
  case Nil
  then show ?case by simp
next
  case (Cons i ids)
  let ?store = "store(i \<mapsto> sort_Slice alg (slice_at store i) (\<lambda>a b. CreatedAt a < CreatedAt b))"
  have step: "sort_replies alg store (i # ids) = sort_replies alg ?store ids"
    by simp
  have "mset (slice_at ?store k) = mset (slice_at store k)"
    using Cons.prems by (simp add: mset_sort_Slice)
  with Cons.IH [OF Cons.prems, of ?store] show ?case
    unfolding step by (rule trans)
qed

lemma sort_replies_sorted:
  "sorts alg \<Longrightarrow> k \<in> set ids \<Longrightarrow>
   sorted (map CreatedAt (slice_at (sort_replies alg store ids) k))"
proof (induction ids arbitrary: store)
  case Nil
  then show ?case by simp
next
  case (Cons i ids)
  let ?store = "store(i \<mapsto> sort_Slice alg (slice_at store i) (\<lambda>a b. CreatedAt a < CreatedAt b))"
  have step: "sort_replies alg store (i # ids) = sort_replies alg ?store ids"
    by simp
  show ?case
  proof (cases "k \<in> set ids")
    case True
    with Cons.IH [OF Cons.prems(1), of ?store] show ?thesis
      unfolding step by blast
  next
    case False
    with Cons.prems(2) have "k = i" by simp
    with False have "slice_at (sort_replies alg ?store ids) k =
        sort_Slice alg (slice_at store i) (\<lambda>a b. CreatedAt a < CreatedAt b)"
      by (simp add: sort_replies_other)
    with Cons.prems(1) show ?thesis
      unfolding step by (simp only: sorted_sort_Slice)
  qed
qed

lemma groupIntoThreads_SomeD:
  assumes "sorts alg" and "groupIntoThreads alg cs = Some ts"
  obtains R ids sids G where
    "group_loop (commentByID cs) cs (Map.empty, []) = Some (R, ids)"
    "ids = map ID (filter (\<lambda>c. InReplyToID c = None) cs)"
    "mset sids = mset ids"
    "sorted (map (\<lambda>k. CreatedAt (the (commentByID cs k))) sids)"
    "ts = map (\<lambda>k. \<lparr>Comments = G k\<rparr>) sids"
    "\<And>k. mset (G k) = mset (slice_at R k)"
    "\<And>k. k \<in> set sids \<Longrightarrow> sorted (map CreatedAt (G k))"
proof -
  from assms(2) obtain R ids where
    g: "group_loop (commentByID cs) cs (Map.empty, []) = Some (R, ids)"
    by (auto simp: groupIntoThreads_def group_by_root_def split: option.splits)
  define sids where "sids = sort_Slice alg ids
     (\<lambda>a b. CreatedAt (the (commentByID cs a)) < CreatedAt (the (commentByID cs b)))"
  define G where "G = slice_at (sort_replies alg R sids)"
  have ts: "ts = map (\<lambda>k. \<lparr>Comments = G k\<rparr>) sids"
    using assms(2) g by (simp add: groupIntoThreads_def group_by_root_def Let_def sids_def G_def)
  show thesis
  proof (rule that [of R ids sids G])
    show "group_loop (commentByID cs) cs (Map.empty, []) = Some (R, ids)" by (rule g)
    show "ids = map ID (filter (\<lambda>c. InReplyToID c = None) cs)"
      using group_loop_rootIDs [OF g] by simp
    show "mset sids = mset ids"
      unfolding sids_def by (rule mset_sort_Slice [OF assms(1)])
    show "sorted (map (\<lambda>k. CreatedAt (the (commentByID cs k))) sids)"
      unfolding sids_def by (rule sorted_sort_Slice [OF assms(1)])
    show "ts = map (\<lambda>k. \<lparr>Comments = G k\<rparr>) sids" by (rule ts)
    show "mset (G k) = mset (slice_at R k)" for k
      unfolding G_def by (rule sort_replies_mset [OF assms(1)])
    show "sorted (map CreatedAt (G k))" if "k \<in> set sids" for k
      unfolding G_def using that by (rule sort_replies_sorted [OF assms(1)])
  qed
qed

text \<open>The group of a root id: the last root of that id, then the replies after it.\<close>

lemma group_of_root_id:
  assumes g: "group_loop (commentByID cs) cs (Map.empty, []) = Some (R, ids)"
    and k: "k \<in> set ids"
  obtains pre r post where "cs = pre @ r # post" "InReplyToID r = None" "ID r = k"
    "slice_at R k = r # filter (\<lambda>c. effective_root (commentByID cs) c = Some k) post"
    "\<forall>c\<in>set (filter (\<lambda>c. effective_root (commentByID cs) c = Some k) post). InReplyToID c \<noteq> None"
proof -
  from group_loop_rootIDs [OF g] k
  have "\<exists>c\<in>set cs. InReplyToID c = None \<and> ID c = k" by auto
  from split_list_last_prop [OF this] obtain pre r post where
    cs: "cs = pre @ r # post" and r: "InReplyToID r = None" "ID r = k"
    and last: "\<forall>c\<in>set post. \<not> (InReplyToID c = None \<and> ID c = k)"
    by blast
  from last r have nr: "\<forall>c\<in>set post. InReplyToID c = None \<longrightarrow> ID c \<noteq> ID r" by auto
  from g have "group_loop (commentByID cs) (pre @ r # post) (Map.empty, []) = Some (R, ids)"
    using cs by simp
  from group_loop_last_root [OF this r(1) nr]
  have s: "slice_at R k = r # filter (\<lambda>c. effective_root (commentByID cs) c = Some k) post"
    using r by simp
  have "InReplyToID c \<noteq> None"
    if "c \<in> set (filter (\<lambda>c. effective_root (commentByID cs) c = Some k) post)" for c
    using that last by (auto simp: effective_root_def split: option.splits)
  with cs r s show thesis by (intro that [of pre r post]) auto
qed

lemma root_in_group:
  assumes d: "distinct (map ID comments)"
    and g: "group_loop (commentByID comments) comments (Map.empty, []) = Some (R, ids)"
    and k: "k \<in> set ids"
  shows "\<exists>r. commentByID comments k = Some r \<and> InReplyToID r = None \<and> r \<in> set (slice_at R k)"
  using g k
proof (rule group_of_root_id)
  fix pre r post
  assume cs: "comments = pre @ r # post" and r: "InReplyToID r = None" "ID r = k"
    and grp: "slice_at R k =
      r # filter (\<lambda>c. effective_root (commentByID comments) c = Some k) post"
  from cs have rin: "r \<in> set comments" by simp
  have "commentByID comments (ID r) = Some r"
    using d rin by (rule commentByID_distinct)
  then have "commentByID comments k = Some r"
    by (simp only: r)
  moreover have "r \<in> set (slice_at R k)"
    by (simp only: grp list.set_intros)
  ultimately show ?thesis using r(1) by blast
qed

text \<open>How often a comment occurs in the threads.\<close>

lemma count_list_concat:
  "count_list (concat xss) c = sum_list (map (\<lambda>xs. count_list xs c) xss)"
  by (induction xss) simp_all

lemma count_list_filter:
  "count_list (filter P xs) c = (if P c then count_list xs c else 0)"
  by (induction xs) auto

lemma count_list_distinct:
  "distinct xs \<Longrightarrow> count_list xs c = (if c \<in> set xs then 1 else 0)"
  by (induction xs) auto

lemma count_list_mset_cong: "mset xs = mset ys \<Longrightarrow> count_list xs c = count_list ys c"
  by (metis count_mset)

lemma sum_list_mset_cong:
  fixes h :: "'a \<Rightarrow> nat"
  shows "mset xs = mset ys \<Longrightarrow> sum_list (map h xs) = sum_list (map h ys)"
  by (metis mset_map sum_mset_sum_list)

lemma sum_list_only:
  fixes h :: "'a \<Rightarrow> nat"
  shows "distinct xs \<Longrightarrow> \<forall>x\<in>set xs. x \<noteq> a \<longrightarrow> h x = 0 \<Longrightarrow>
         sum_list (map h xs) = (if a \<in> set xs then h a else 0)"
  by (induction xs) auto

lemma count_in_threads:
  assumes "sorts alg" and "groupIntoThreads alg cs = Some ts"
    and loop: "group_loop (commentByID cs) cs (Map.empty, []) = Some (R, ids)"
  shows "count_list (concat (map Comments ts)) c =
         sum_list (map (\<lambda>k. count_list (slice_at R k) c) ids)"
  using assms(1,2)
proof (rule groupIntoThreads_SomeD)
  fix R' ids' sids G
  assume g: "group_loop (commentByID cs) cs (Map.empty, []) = Some (R', ids')"
    and sids: "mset sids = mset ids'"
    and ts: "ts = map (\<lambda>k. \<lparr>Comments = G k\<rparr>) sids"
    and G: "\<And>k. mset (G k) = mset (slice_at R' k)"
  from g loop have same: "R' = R" "ids' = ids" by simp_all
  have "count_list (concat (map Comments ts)) c =
      sum_list (map (\<lambda>k. count_list (G k) c) sids)"
    by (simp add: ts count_list_concat comp_def)
  also have "\<dots> = sum_list (map (\<lambda>k. count_list (slice_at R k) c) sids)"
    using count_list_mset_cong [OF G] by (simp add: same)
  also have "\<dots> = sum_list (map (\<lambda>k. count_list (slice_at R k) c) ids)"
    using sids same by (intro sum_list_mset_cong) simp
  finally show ?thesis .
qed

lemma count_in_own_group:
  assumes "sorts alg" and d: "distinct (map ID cs)"
    and ts: "groupIntoThreads alg cs = Some ts"
    and loop: "group_loop (commentByID cs) cs (Map.empty, []) = Some (R, ids)"
    and e: "effective_root (commentByID cs) c = Some k"
  shows "count_list (concat (map Comments ts)) c =
         (if k \<in> set ids then count_list (slice_at R k) c else 0)"
proof -
  have ids: "ids = map ID (filter (\<lambda>c. InReplyToID c = None) cs)"
    using group_loop_rootIDs [OF loop] by simp
  have "distinct ids"
    unfolding ids using d by (rule distinct_map_filter)
  moreover have "\<forall>k'\<in>set ids. k' \<noteq> k \<longrightarrow> count_list (slice_at R k') c = 0"
  proof (intro ballI impI)
    fix k'
    assume "k' \<noteq> k"
    with group_loop_members [OF loop, of c k'] e have "c \<notin> set (slice_at R k')"
      by auto
    then show "count_list (slice_at R k') c = 0" by simp
  qed
  ultimately have "sum_list (map (\<lambda>k. count_list (slice_at R k) c) ids) =
      (if k \<in> set ids then count_list (slice_at R k) c else 0)"
    by (rule sum_list_only)
  with count_in_threads [OF assms(1) ts loop, of c] show ?thesis by simp
qed

lemma group_of_distinct_root:
  assumes d: "distinct (map ID (pre @ r # post))"
    and loop: "group_loop byID (pre @ r # post) (Map.empty, []) = Some (R, ids)"
    and r: "InReplyToID r = None"
  shows "slice_at R (ID r) = r # filter (\<lambda>c. effective_root byID c = Some (ID r)) post"
    and "r \<notin> set post" and "distinct post" and "ID r \<in> set ids"
proof -
  from d have "ID r \<notin> ID ` set post" by auto
  then have "\<forall>c\<in>set post. InReplyToID c = None \<longrightarrow> ID c \<noteq> ID r"
    by (metis imageI)
  from group_loop_last_root [OF loop r this]
  show "slice_at R (ID r) = r # filter (\<lambda>c. effective_root byID c = Some (ID r)) post" .
  from \<open>ID r \<notin> ID ` set post\<close> show "r \<notin> set post" by auto
  from d show "distinct post" by (simp add: distinct_map)
  from group_loop_rootIDs [OF loop] r show "ID r \<in> set ids" by simp
qed

section \<open>Properties of the annotation\<close>

lemma int_at_upd [simp]: "int_at (m(k \<mapsto> v)) k' = (if k' = k then v else int_at m k')"
  by (simp add: int_at_def)

lemma int_at_empty [simp]: "int_at Map.empty k = 0"
  by (simp add: int_at_def)

lemma threadsByReview_fold:
  "slice_at
     (fold (\<lambda>thread m.
              if length (Comments thread) > 0
              then (let reviewID = PullRequestReviewID (Comments thread ! 0)
                    in m(reviewID \<mapsto> slice_at m reviewID @ [thread]))
              else m) threads m) k =
   slice_at m k @
   filter (\<lambda>t. Comments t \<noteq> [] \<and> PullRequestReviewID (Comments t ! 0) = k) threads"
  by (induction threads arbitrary: m) (auto simp: Let_def)

lemma threadsByReview_at:
  "slice_at (threadsByReview threads) k =
   filter (\<lambda>t. Comments t \<noteq> [] \<and> PullRequestReviewID (Comments t ! 0) = k) threads"
  using threadsByReview_fold [of threads Map.empty k] by (simp add: threadsByReview_def)

lemma replyCountByReview_fold:
  "int_at
     (fold (\<lambda>c m.
              if InReplyToID c \<noteq> None
              then m(PullRequestReviewID c \<mapsto> int_at m (PullRequestReviewID c) + 1)
              else m) cs m) k =
   int_at m k +
   int (length (filter (\<lambda>c. InReplyToID c \<noteq> None \<and> PullRequestReviewID c = k) cs))"
  by (induction cs arbitrary: m) auto

lemma replyCountByReview_at:
  "int_at (replyCountByReview cs) k =
   int (length (filter (\<lambda>c. InReplyToID c \<noteq> None \<and> PullRequestReviewID c = k) cs))"
  using replyCountByReview_fold [of cs Map.empty k] by (simp add: replyCountByReview_def)

section \<open>Properties of the timeline\<close>

lemma timeline_mset: "sorts alg \<Longrightarrow> mset (timeline alg pr) = mset (timeline_items pr)"
  by (simp add: timeline_def mset_sort_Slice)

lemma timeline_sorted: "sorts alg \<Longrightarrow> sorted (map Item_CreatedAt (timeline alg pr))"
  by (simp add: timeline_def sorted_sort_Slice)

lemma map_filter_mset_cong:
  "mset xs = mset ys \<Longrightarrow> mset (List.map_filter f xs) = mset (List.map_filter f ys)"
  by (metis (no_types) List.map_filter_def mset_filter mset_map)

lemma map_filter_append: "List.map_filter f (xs @ ys) = List.map_filter f xs @ List.map_filter f ys"
  by (simp add: List.map_filter_def)

lemma map_filter_all: "(\<And>x. f (g x) = Some x) \<Longrightarrow> List.map_filter f (map g xs) = xs"
  by (induction xs) (simp_all add: List.map_filter_simps)

lemma map_filter_none: "(\<And>x. f (g x) = None) \<Longrightarrow> List.map_filter f (map g xs) = []"
  by (induction xs) (simp_all add: List.map_filter_simps)

lemma timeline_items_comments: "List.map_filter Item_Comment (timeline_items pr) = PR_Comments pr"
  by (simp add: timeline_items_def map_filter_append map_filter_all map_filter_none
      comment_item_def review_item_def commit_item_def)

lemma timeline_items_reviews: "List.map_filter Item_Review (timeline_items pr) = PR_Reviews pr"
  by (simp add: timeline_items_def map_filter_append map_filter_all map_filter_none
      comment_item_def review_item_def commit_item_def)

lemma timeline_items_commits: "List.map_filter Item_Commit (timeline_items pr) = PR_Commits pr"
  by (simp add: timeline_items_def map_filter_append map_filter_all map_filter_none
      comment_item_def review_item_def commit_item_def)

lemma timeline_set: "sorts alg \<Longrightarrow> set (timeline alg pr) = set (timeline_items pr)"
  using timeline_mset [of alg pr] by (metis set_mset_mset)

lemma timeline_length:
  "sorts alg \<Longrightarrow>
   length (timeline alg pr) =
     length (PR_Comments pr) + length (PR_Reviews pr) + length (PR_Commits pr)"
  using timeline_mset [of alg pr, THEN arg_cong, of size] by (simp add: timeline_items_def)

lemma timeline_items_tagged:
  assumes "item \<in> set (timeline_items pr)"
  shows "(\<exists>c\<in>set (PR_Comments pr). Type item = ''comment'' \<and> Item_Comment item = Some c \<and>
               Item_Review item = None \<and> Item_Commit item = None \<and>
               Item_CreatedAt item = CreatedAt c) \<or>
            (\<exists>r\<in>set (PR_Reviews pr). Type item = ''review'' \<and> Item_Review item = Some r \<and>
               Item_Comment item = None \<and> Item_Commit item = None \<and>
               Item_CreatedAt item = SubmittedAt r) \<or>
            (\<exists>k\<in>set (PR_Commits pr). Type item = ''commit'' \<and> Item_Commit item = Some k \<and>
               Item_Comment item = None \<and> Item_Review item = None \<and>
               Item_CreatedAt item = Commit_CreatedAt k)"
proof -
  from assms consider
    c where "c \<in> set (PR_Comments pr)" "item = comment_item c"
    | r where "r \<in> set (PR_Reviews pr)" "item = review_item r"
    | k where "k \<in> set (PR_Commits pr)" "item = commit_item k"
    unfolding timeline_items_def by auto
  then show ?thesis
  proof cases
    case 1
    then show ?thesis by (intro disjI1 bexI [of _ c]) (simp_all add: comment_item_def)
  next
    case 2
    then show ?thesis by (intro disjI2 disjI1 bexI [of _ r]) (simp_all add: review_item_def)
  next
    case 3
    then show ?thesis by (intro disjI2 bexI [of _ k]) (simp_all add: commit_item_def)
  qed
qed

section \<open>Evaluation\<close>

lemmas run_defs =
  groupIntoThreads_def group_by_root_def commentByID_def walk_parents.simps
  sort_Slice_def insertion_sorter_def reversing_sorter_def insertion_def
  annotate_reviews_def threadsByReview_def replyCountByReview_def
  timeline_def timeline_items_def comment_item_def review_item_def commit_item_def
  comment_of_def review_of_def commit_of_def Let_def

lemma tie_keys:
  "map Item_CreatedAt (timeline_items tie_pr) = [2, 9, 9, 3, 4, 5, 6, 7, 8, 10, 11, 12, 1]"
  by (simp add: timeline_items_def tie_pr_def comment_item_def review_item_def commit_item_def
      comment_of_def review_of_def commit_of_def)

lemma tie_order:
  "insertion (\<lambda>i j. [2, 9, 9, 3, 4, 5, 6, 7, 8, 10, 11, 12, 1 :: int] ! i <
                     [2, 9, 9, 3, 4, 5, 6, 7, 8, 10, 11, 12, 1] ! j) (rev [0..<13]) =
   [12, 0, 3, 4, 5, 6, 7, 8, 2, 1, 9, 10, 11]"
  by code_simp

lemma small_timeline:
  "timeline insertion_sorter small_pr =
     [commit_item (commit_of ''a'' 10), review_item (review_of 101 20),
      comment_item (comment_of 1 30 None 0)]"
  by (simp add: run_defs small_pr_def)

lemma tie_timeline:
  "timeline reversing_sorter tie_pr =
     map (\<lambda>i. timeline_items tie_pr ! i) [12, 0, 3, 4, 5, 6, 7, 8, 2, 1, 9, 10, 11]"
proof -
  have "length (timeline_items tie_pr) = 13"
    using arg_cong [OF tie_keys, of length] by simp
  then show ?thesis
    unfolding timeline_def sort_Slice_reversing_keys tie_keys
    by (simp only: tie_order)
qed

lemma walk_cycle_diverges:
  assumes "walk_parents (commentByID cycle_comments) p = Some r"
  shows "p \<noteq> 1 \<and> p \<noteq> 2"
proof -
  let ?M = "commentByID cycle_comments"
  have M1: "?M 1 = Some (comment_of 1 10 (Some 2) 0)" and M2: "?M 2 = Some (comment_of 2 11 (Some 1) 0)"
    by (simp_all add: cycle_comments_def commentByID_def comment_of_def)
  have "?M = ?M \<longrightarrow> p \<noteq> 1 \<and> p \<noteq> 2"
  proof (rule walk_parents.raw_induct [where P = "\<lambda>byID p r. byID = ?M \<longrightarrow> p \<noteq> 1 \<and> p \<noteq> 2"])
    fix walk byID p r
    assume IH: "\<And>byID p r. walk byID p = Some r \<Longrightarrow> byID = ?M \<longrightarrow> p \<noteq> 1 \<and> p \<noteq> 2"
      and step: "(case byID p of None \<Rightarrow> Some p
                  | Some parent \<Rightarrow>
                      (case InReplyToID parent of None \<Rightarrow> Some p
                       | Some next \<Rightarrow> walk byID next)) = Some r"
    show "byID = ?M \<longrightarrow> p \<noteq> 1 \<and> p \<noteq> 2"
    proof (intro impI conjI notI)
      assume b: "byID = ?M" and "p = 1"
      with step M1 have "walk ?M 2 = Some r" by (simp add: comment_of_def)
      with IH show False by blast
    next
      assume b: "byID = ?M" and "p = 2"
      with step M2 have "walk ?M 1 = Some r" by (simp add: comment_of_def)
      with IH show False by blast
    qed
  next
    show "walk_parents ?M p = Some r" by (rule assms)
  qed
  then show ?thesis by simp
qed

lemma acyclic_two_reviews: "acyclic (set (parent_edges two_reviews_comments))"
  by (simp add: parent_edges_def two_reviews_comments_def comment_of_def acyclic_insert wf_acyclic)

lemma two_reviews_threads:
  "groupIntoThreads insertion_sorter two_reviews_comments =
     Some [\<lparr>Comments = two_reviews_comments\<rparr>]"
  by (simp add: run_defs two_reviews_comments_def)

lemma two_threads_threads:
  "groupIntoThreads insertion_sorter two_threads =
     Some [\<lparr>Comments = [comment_of 2 10 None 0]\<rparr>,
           \<lparr>Comments = [comment_of 1 20 None 0, comment_of 3 30 (Some 1) 0]\<rparr>]"
  by (simp add: run_defs two_threads_def)

lemma mixed_threads:
  "groupIntoThreads insertion_sorter mixed_comments =
     Some [\<lparr>Comments = [comment_of 1 10 None 0, comment_of 2 11 (Some 1) 0]\<rparr>]"
  by (simp add: run_defs mixed_comments_def)

lemma dangling_threads:
  "groupIntoThreads insertion_sorter dangling_chain = Some [\<lparr>Comments = [comment_of 1 10 None 0]\<rparr>]"
  by (simp add: run_defs dangling_chain_def)

text \<open>
  Line 352 assigns the group of a root anew: a reply met before its root, and appended
  to the group of that id, is no longer in it when the loop ends.
\<close>

lemma reply_before_root_is_dropped:
  "groupIntoThreads insertion_sorter [comment_of 2 11 (Some 1) 0, comment_of 1 10 None 0] =
     Some [\<lparr>Comments = [comment_of 1 10 None 0]\<rparr>]"
  by (simp add: run_defs)

section \<open>The claims\<close>







text \<open>
  C3, as stated: the merge is stable, so that at equal timestamps a comment stands
  before a review. \<^verbatim>\<open>RenderPR\<close> sorts with \<^verbatim>\<open>sort.Slice\<close>, whose contract leaves the
  order of equal elements open (the stable sort of the library is \<^verbatim>\<open>sort.SliceStable\<close>).
  On \<open>tie_pr\<close> an algorithm that meets the contract puts the review of timestamp 9
  (third of the concatenation) at position 8 and the comment of timestamp 9 (second of
  the concatenation) at position 9. The pattern-defeating quicksort behind
  \<^verbatim>\<open>sort.Slice\<close> since Go 1.19 gives the same arrangement on these thirteen keys: it
  takes the median of positions 3, 6 and 9 (key 6) as pivot, its partition swaps
  position 1 (key 9, the comment) with position 12 (key 1) and position 2 (key 9, the
  review) with position 6 (key 2), and the insertion sort of the right part
  9, 7, 8, 10, 11, 12, 9 then keeps the review before the comment.
\<close>

theorem timeline_tie_not_in_concatenation_order:
  "sorts reversing_sorter \<and>
   Type (timeline_items tie_pr ! 1) = ''comment'' \<and>
   Type (timeline_items tie_pr ! 2) = ''review'' \<and>
   Item_CreatedAt (timeline_items tie_pr ! 1) = Item_CreatedAt (timeline_items tie_pr ! 2) \<and>
   timeline reversing_sorter tie_pr ! 8 = timeline_items tie_pr ! 2 \<and>
   timeline reversing_sorter tie_pr ! 9 = timeline_items tie_pr ! 1"
proof -
  have a: "Type (timeline_items tie_pr ! 1) = ''comment'' \<and>
      Type (timeline_items tie_pr ! 2) = ''review'' \<and>
      Item_CreatedAt (timeline_items tie_pr ! 1) = Item_CreatedAt (timeline_items tie_pr ! 2)"
    by (simp add: timeline_items_def tie_pr_def comment_item_def review_item_def
        comment_of_def review_of_def)
  have b: "timeline reversing_sorter tie_pr ! 8 = timeline_items tie_pr ! 2 \<and>
      timeline reversing_sorter tie_pr ! 9 = timeline_items tie_pr ! 1"
    by (simp add: tie_timeline)
  from sorts_reversing_sorter a b show ?thesis by blast
qed

text \<open>
  C3, amended: with a \<^verbatim>\<open>sort.Slice\<close> that meets its contract the timeline is a
  rearrangement of the concatenation comments, reviews, commits in which no item has a
  later timestamp than an item after it; so of two items with different timestamps the
  earlier one stands first, and the order of items with equal timestamps is the one
  \<^verbatim>\<open>sort.Slice\<close> leaves.
\<close>

theorem timeline_ascending_rearrangement:
  assumes "sorts alg"
  shows "mset (timeline alg pr) = mset (timeline_items pr) \<and>
         (\<forall>i j. i < j \<and> j < length (timeline alg pr) \<longrightarrow>
            Item_CreatedAt (timeline alg pr ! i) \<le> Item_CreatedAt (timeline alg pr ! j))"
proof (intro conjI allI impI)
  show "mset (timeline alg pr) = mset (timeline_items pr)"
    by (rule timeline_mset [OF assms])
next
  fix i j
  assume "i < j \<and> j < length (timeline alg pr)"
  then have "map Item_CreatedAt (timeline alg pr) ! i \<le> map Item_CreatedAt (timeline alg pr) ! j"
    using timeline_sorted [OF assms, of pr] by (auto simp: sorted_iff_nth_mono)
  then show "Item_CreatedAt (timeline alg pr ! i) \<le> Item_CreatedAt (timeline alg pr ! j)"
    using \<open>i < j \<and> j < length (timeline alg pr)\<close> by simp
qed

theorem timeline_ascending_rearrangement_witness:
  "sorts insertion_sorter \<and>
   mset (timeline insertion_sorter small_pr) = mset (timeline_items small_pr) \<and>
   (0::nat) < 2 \<and> 2 < length (timeline insertion_sorter small_pr) \<and>
   Item_CreatedAt (timeline insertion_sorter small_pr ! 0) \<le>
     Item_CreatedAt (timeline insertion_sorter small_pr ! 2) \<and>
   Item_CreatedAt (timeline insertion_sorter small_pr ! 0) = 10 \<and>
   Item_CreatedAt (timeline insertion_sorter small_pr ! 2) = 30"
proof -
  note t = timeline_ascending_rearrangement [OF sorts_insertion_sorter, of small_pr]
  have l: "(0::nat) < 2 \<and> 2 < length (timeline insertion_sorter small_pr)"
    by (simp add: small_timeline)
  have v: "Item_CreatedAt (timeline insertion_sorter small_pr ! 0) = 10 \<and>
      Item_CreatedAt (timeline insertion_sorter small_pr ! 2) = 30"
    by (simp add: small_timeline commit_item_def comment_item_def commit_of_def comment_of_def)
  from t sorts_insertion_sorter l v show ?thesis
    by blast
qed



text \<open>
  C5, as stated: in every thread the comment with no parent reference is the first
  element. The threads are sorted by creation timestamp and by nothing else: a reply
  stamped earlier than its root stands before it.
\<close>

theorem reply_earlier_than_root_comes_first:
  "groupIntoThreads insertion_sorter early_reply =
     Some [\<lparr>Comments = [comment_of 2 5 (Some 1) 0, comment_of 1 10 None 0]\<rparr>] \<and>
   InReplyToID (comment_of 1 10 None 0) = None \<and>
   InReplyToID (comment_of 2 5 (Some 1) 0) = Some 1"
  by (simp add: run_defs early_reply_def)

text \<open>
  C5, amended: with a \<^verbatim>\<open>sort.Slice\<close> that meets its contract, the comments of every
  thread are in non-decreasing order of creation timestamp; the thread holds one comment
  with no parent reference, every other comment of it has one; and that root is the first
  element whenever its timestamp is earlier than the timestamp of every other comment
  of the thread.
\<close>

theorem thread_is_ascending_with_one_root:
  assumes "sorts alg" and "groupIntoThreads alg comments = Some threads"
    and "t \<in> set threads"
  shows "sorted (map CreatedAt (Comments t)) \<and>
         (\<exists>root\<in>set (Comments t).
            InReplyToID root = None \<and>
            (\<forall>c\<in>set (Comments t). c \<noteq> root \<longrightarrow> InReplyToID c \<noteq> None) \<and>
            ((\<forall>c\<in>set (Comments t). c \<noteq> root \<longrightarrow> CreatedAt root < CreatedAt c) \<longrightarrow>
               Comments t ! 0 = root))"
  using assms(1,2)
proof (rule groupIntoThreads_SomeD)
  fix R ids sids G
  assume g: "group_loop (commentByID comments) comments (Map.empty, []) = Some (R, ids)"
    and sids: "mset sids = mset ids"
    and ts: "threads = map (\<lambda>k. \<lparr>Comments = G k\<rparr>) sids"
    and G: "\<And>k. mset (G k) = mset (slice_at R k)"
    and srt: "\<And>k. k \<in> set sids \<Longrightarrow> sorted (map CreatedAt (G k))"
  from assms(3) ts obtain k where k: "k \<in> set sids" and t: "Comments t = G k"
    by auto
  from k sids have "k \<in> set ids" by (metis set_mset_mset)
  from group_of_root_id [OF g this] obtain pre r post where
    grp: "slice_at R k = r # filter (\<lambda>c. effective_root (commentByID comments) c = Some k) post"
    and r: "InReplyToID r = None"
    and rest: "\<forall>c\<in>set (filter (\<lambda>c. effective_root (commentByID comments) c = Some k) post).
        InReplyToID c \<noteq> None"
    by blast
  have set_t: "set (Comments t) =
      insert r (set (filter (\<lambda>c. effective_root (commentByID comments) c = Some k) post))"
    using G [of k] grp t by (metis list.simps(15) set_mset_mset)
  have s: "sorted (map CreatedAt (Comments t))"
    using srt [OF k] t by simp
  have others: "\<forall>c\<in>set (Comments t). c \<noteq> r \<longrightarrow> InReplyToID c \<noteq> None"
    using set_t rest by auto
  have first: "Comments t ! 0 = r"
    if later: "\<forall>c\<in>set (Comments t). c \<noteq> r \<longrightarrow> CreatedAt r < CreatedAt c"
  proof (rule ccontr)
    assume ne: "Comments t ! 0 \<noteq> r"
    from set_t have nonempty: "Comments t \<noteq> []" by auto
    then have h: "Comments t ! 0 \<in> set (Comments t)" by simp
    with later ne have lt: "CreatedAt r < CreatedAt (Comments t ! 0)" by blast
    from set_t have "r \<in> set (Comments t)" by simp
    then obtain i where i: "i < length (Comments t)" "Comments t ! i = r"
      by (auto simp: in_set_conv_nth)
    with s have "map CreatedAt (Comments t) ! 0 \<le> map CreatedAt (Comments t) ! i"
      by (intro sorted_nth_mono) simp_all
    with i nonempty have "CreatedAt (Comments t ! 0) \<le> CreatedAt (Comments t ! i)"
      by simp
    with lt i show False by simp
  qed
  from set_t have "r \<in> set (Comments t)" by simp
  with s r others first show ?thesis by blast
qed

theorem thread_is_ascending_with_one_root_witness:
  "sorts insertion_sorter \<and>
   groupIntoThreads insertion_sorter two_reviews_comments =
     Some [\<lparr>Comments = two_reviews_comments\<rparr>] \<and>
   \<lparr>Comments = two_reviews_comments\<rparr> \<in> set [\<lparr>Comments = two_reviews_comments\<rparr>] \<and>
   sorted (map CreatedAt (Comments \<lparr>Comments = two_reviews_comments\<rparr>)) \<and>
   (\<exists>root\<in>set (Comments \<lparr>Comments = two_reviews_comments\<rparr>).
      InReplyToID root = None \<and>
      (\<forall>c\<in>set (Comments \<lparr>Comments = two_reviews_comments\<rparr>).
         c \<noteq> root \<longrightarrow> InReplyToID c \<noteq> None) \<and>
      ((\<forall>c\<in>set (Comments \<lparr>Comments = two_reviews_comments\<rparr>).
          c \<noteq> root \<longrightarrow> CreatedAt root < CreatedAt c) \<longrightarrow>
       Comments \<lparr>Comments = two_reviews_comments\<rparr> ! 0 = root)) \<and>
   Comments \<lparr>Comments = two_reviews_comments\<rparr> ! 0 = comment_of 1 10 None 101 \<and>
   CreatedAt (comment_of 1 10 None 101) < CreatedAt (comment_of 2 11 (Some 1) 102)"
proof -
  have m: "\<lparr>Comments = two_reviews_comments\<rparr> \<in> set [\<lparr>Comments = two_reviews_comments\<rparr>]"
    by simp
  note t = thread_is_ascending_with_one_root [OF sorts_insertion_sorter two_reviews_threads m]
  have v: "Comments \<lparr>Comments = two_reviews_comments\<rparr> ! 0 = comment_of 1 10 None 101 \<and>
      CreatedAt (comment_of 1 10 None 101) < CreatedAt (comment_of 2 11 (Some 1) 102)"
    by (simp add: two_reviews_comments_def comment_of_def)
  from sorts_insertion_sorter two_reviews_threads m t v show ?thesis
    by (intro conjI) (erule conjunct1 conjunct2 | assumption)+
qed

text \<open>
  C6, as stated: comments of one group, and thread roots, with equal creation
  timestamps keep their input order. Both sorts are \<^verbatim>\<open>sort.Slice\<close>. On thirteen root
  comments with the timestamps 2, 9, 9, 3, 4, 5, 6, 7, 8, 10, 11, 12, 1 an algorithm that
  meets the contract puts the thread of comment 3 before the thread of comment 2, which
  precedes it in the input with the same timestamp; it is the arrangement described
  at C3.
\<close>

theorem equal_timestamp_roots_leave_input_order:
  "sorts reversing_sorter \<and>
   ID (tie_comments ! 1) = 2 \<and> ID (tie_comments ! 2) = 3 \<and>
   CreatedAt (tie_comments ! 1) = CreatedAt (tie_comments ! 2) \<and>
   map_option (map (map ID \<circ> Comments)) (groupIntoThreads reversing_sorter tie_comments) =
     Some [[13], [1], [4], [5], [6], [7], [8], [9], [3], [2], [10], [11], [12]]"
proof -
  have a: "ID (tie_comments ! 1) = 2 \<and> ID (tie_comments ! 2) = 3 \<and>
      CreatedAt (tie_comments ! 1) = CreatedAt (tie_comments ! 2)"
    by (simp add: tie_comments_def comment_of_def)
  have b: "map_option (map (map ID \<circ> Comments)) (groupIntoThreads reversing_sorter tie_comments) =
     Some [[13], [1], [4], [5], [6], [7], [8], [9], [3], [2], [10], [11], [12]]"
    by (simp add: run_defs tie_comments_def)
  from sorts_reversing_sorter a b show ?thesis by blast
qed

text \<open>
  C6, amended: with a \<^verbatim>\<open>sort.Slice\<close> that meets its contract and comment ids that are
  unique, the comments of every thread are in non-decreasing order of creation
  timestamp, and every thread holds a comment with no parent reference such that these
  roots, taken in the order of the threads, are in non-decreasing order of creation
  timestamp. The result is a function of the input; what it does with equal timestamps
  is left to \<^verbatim>\<open>sort.Slice\<close>.
\<close>

theorem threads_and_comments_ascend:
  assumes "sorts alg" and "distinct (map ID comments)"
    and "groupIntoThreads alg comments = Some threads"
  shows "(\<forall>t\<in>set threads. sorted (map CreatedAt (Comments t))) \<and>
         (\<exists>roots. length roots = length threads \<and>
            (\<forall>i<length threads. roots ! i \<in> set (Comments (threads ! i)) \<and>
                                  InReplyToID (roots ! i) = None) \<and>
            sorted (map CreatedAt roots))"
  using assms(1,3)
proof (rule groupIntoThreads_SomeD)
  fix R ids sids G
  assume g: "group_loop (commentByID comments) comments (Map.empty, []) = Some (R, ids)"
    and sids: "mset sids = mset ids"
    and keys: "sorted (map (\<lambda>k. CreatedAt (the (commentByID comments k))) sids)"
    and ts: "threads = map (\<lambda>k. \<lparr>Comments = G k\<rparr>) sids"
    and G: "\<And>k. mset (G k) = mset (slice_at R k)"
    and srt: "\<And>k. k \<in> set sids \<Longrightarrow> sorted (map CreatedAt (G k))"
  have inner: "\<forall>t\<in>set threads. sorted (map CreatedAt (Comments t))"
    using srt by (auto simp: ts)
  define roots where "roots = map (\<lambda>k. the (commentByID comments k)) sids"
  from sids have same: "set sids = set ids" by (rule mset_eq_setD)
  have root_of: "the (commentByID comments k) \<in> set (G k) \<and>
      InReplyToID (the (commentByID comments k)) = None" if k: "k \<in> set sids" for k
  proof -
    from k same have "k \<in> set ids" by simp
    from root_in_group [OF assms(2) g this] obtain r where
      "commentByID comments k = Some r" "InReplyToID r = None" "r \<in> set (slice_at R k)"
      by blast
    moreover have "set (G k) = set (slice_at R k)"
      using G [of k] by (rule mset_eq_setD)
    ultimately show ?thesis by simp
  qed
  have len: "length roots = length threads"
    by (simp add: roots_def ts)
  have each: "\<forall>i<length threads. roots ! i \<in> set (Comments (threads ! i)) \<and>
      InReplyToID (roots ! i) = None"
  proof (intro allI impI)
    fix i
    assume "i < length threads"
    then have i: "i < length sids" by (simp add: ts)
    then have "sids ! i \<in> set sids" by simp
    from root_of [OF this] i show "roots ! i \<in> set (Comments (threads ! i)) \<and>
      InReplyToID (roots ! i) = None"
      by (simp add: roots_def ts)
  qed
  have "map CreatedAt roots = map (\<lambda>k. CreatedAt (the (commentByID comments k))) sids"
    by (simp add: roots_def)
  with keys have "sorted (map CreatedAt roots)" by (simp only:)
  with len each have "\<exists>roots. length roots = length threads \<and>
            (\<forall>i<length threads. roots ! i \<in> set (Comments (threads ! i)) \<and>
                                  InReplyToID (roots ! i) = None) \<and>
            sorted (map CreatedAt roots)"
    by (intro exI [of _ roots] conjI)
  with inner show ?thesis by (rule conjI)
qed

theorem threads_and_comments_ascend_witness:
  "sorts insertion_sorter \<and> distinct (map ID two_threads) \<and>
   groupIntoThreads insertion_sorter two_threads =
     Some [\<lparr>Comments = [comment_of 2 10 None 0]\<rparr>,
           \<lparr>Comments = [comment_of 1 20 None 0, comment_of 3 30 (Some 1) 0]\<rparr>] \<and>
   sorted (map CreatedAt
     (Comments \<lparr>Comments = [comment_of 1 20 None 0, comment_of 3 30 (Some 1) 0]\<rparr>)) \<and>
   (\<exists>roots. length roots =
        length [\<lparr>Comments = [comment_of 2 10 None 0]\<rparr>,
                \<lparr>Comments = [comment_of 1 20 None 0, comment_of 3 30 (Some 1) 0]\<rparr>] \<and>
      (\<forall>i<length [\<lparr>Comments = [comment_of 2 10 None 0]\<rparr>,
                   \<lparr>Comments = [comment_of 1 20 None 0, comment_of 3 30 (Some 1) 0]\<rparr>].
         roots ! i \<in> set (Comments
           ([\<lparr>Comments = [comment_of 2 10 None 0]\<rparr>,
             \<lparr>Comments = [comment_of 1 20 None 0, comment_of 3 30 (Some 1) 0]\<rparr>] ! i)) \<and>
         InReplyToID (roots ! i) = None) \<and>
      sorted (map CreatedAt roots))"
proof -
  have d: "distinct (map ID two_threads)"
    by (simp add: two_threads_def comment_of_def)
  note t = threads_and_comments_ascend [OF sorts_insertion_sorter d two_threads_threads]
  have m: "\<lparr>Comments = [comment_of 1 20 None 0, comment_of 3 30 (Some 1) 0]\<rparr> \<in>
      set [\<lparr>Comments = [comment_of 2 10 None 0]\<rparr>,
           \<lparr>Comments = [comment_of 1 20 None 0, comment_of 3 30 (Some 1) 0]\<rparr>]"
    by simp
  from t m have s: "sorted (map CreatedAt
     (Comments \<lparr>Comments = [comment_of 1 20 None 0, comment_of 3 30 (Some 1) 0]\<rparr>))"
    by blast
  from sorts_insertion_sorter d two_threads_threads s t show ?thesis
    by (intro conjI) (erule conjunct1 conjunct2 | assumption)+
qed

text \<open>
  C7. With a \<^verbatim>\<open>sort.Slice\<close> that meets its contract, the timeline of \<^verbatim>\<open>RenderPR\<close> has
  as many items as the pull request has comments, reviews and commits together; every
  item is tagged \<^verbatim>\<open>comment\<close>, \<^verbatim>\<open>review\<close> or \<^verbatim>\<open>commit\<close>, carries a member of the
  collection of that name and nothing else, and is keyed on that member's creation,
  submission or commit time; the comments, the reviews and the commits carried are, each
  with its multiplicity, those of the pull request; and the timestamps never decrease
  along the timeline.
\<close>

theorem timeline_covers_sources_and_ascends:
  assumes "sorts alg"
  shows "length (timeline alg pr) =
           length (PR_Comments pr) + length (PR_Reviews pr) + length (PR_Commits pr) \<and>
         (\<forall>item\<in>set (timeline alg pr).
            (\<exists>c\<in>set (PR_Comments pr). Type item = ''comment'' \<and> Item_Comment item = Some c \<and>
               Item_Review item = None \<and> Item_Commit item = None \<and>
               Item_CreatedAt item = CreatedAt c) \<or>
            (\<exists>r\<in>set (PR_Reviews pr). Type item = ''review'' \<and> Item_Review item = Some r \<and>
               Item_Comment item = None \<and> Item_Commit item = None \<and>
               Item_CreatedAt item = SubmittedAt r) \<or>
            (\<exists>k\<in>set (PR_Commits pr). Type item = ''commit'' \<and> Item_Commit item = Some k \<and>
               Item_Comment item = None \<and> Item_Review item = None \<and>
               Item_CreatedAt item = Commit_CreatedAt k)) \<and>
         mset (List.map_filter Item_Comment (timeline alg pr)) = mset (PR_Comments pr) \<and>
         mset (List.map_filter Item_Review (timeline alg pr)) = mset (PR_Reviews pr) \<and>
         mset (List.map_filter Item_Commit (timeline alg pr)) = mset (PR_Commits pr) \<and>
         sorted (map Item_CreatedAt (timeline alg pr))"
proof (intro conjI ballI)
  note m = timeline_mset [OF assms, of pr]
  show "length (timeline alg pr) =
      length (PR_Comments pr) + length (PR_Reviews pr) + length (PR_Commits pr)"
    by (rule timeline_length [OF assms])
  show "mset (List.map_filter Item_Comment (timeline alg pr)) = mset (PR_Comments pr)"
    using map_filter_mset_cong [OF m, of Item_Comment] by (simp only: timeline_items_comments)
  show "mset (List.map_filter Item_Review (timeline alg pr)) = mset (PR_Reviews pr)"
    using map_filter_mset_cong [OF m, of Item_Review] by (simp only: timeline_items_reviews)
  show "mset (List.map_filter Item_Commit (timeline alg pr)) = mset (PR_Commits pr)"
    using map_filter_mset_cong [OF m, of Item_Commit] by (simp only: timeline_items_commits)
  show "sorted (map Item_CreatedAt (timeline alg pr))"
    by (rule timeline_sorted [OF assms])
next
  fix item
  assume "item \<in> set (timeline alg pr)"
  then have "item \<in> set (timeline_items pr)"
    by (simp only: timeline_set [OF assms])
  then show "(\<exists>c\<in>set (PR_Comments pr). Type item = ''comment'' \<and> Item_Comment item = Some c \<and>
               Item_Review item = None \<and> Item_Commit item = None \<and>
               Item_CreatedAt item = CreatedAt c) \<or>
            (\<exists>r\<in>set (PR_Reviews pr). Type item = ''review'' \<and> Item_Review item = Some r \<and>
               Item_Comment item = None \<and> Item_Commit item = None \<and>
               Item_CreatedAt item = SubmittedAt r) \<or>
            (\<exists>k\<in>set (PR_Commits pr). Type item = ''commit'' \<and> Item_Commit item = Some k \<and>
               Item_Comment item = None \<and> Item_Review item = None \<and>
               Item_CreatedAt item = Commit_CreatedAt k)"
    by (rule timeline_items_tagged)
qed

theorem timeline_covers_sources_and_ascends_witness:
  "sorts insertion_sorter \<and>
   timeline insertion_sorter small_pr =
     [commit_item (commit_of ''a'' 10), review_item (review_of 101 20),
      comment_item (comment_of 1 30 None 0)] \<and>
   length (timeline insertion_sorter small_pr) =
     length (PR_Comments small_pr) + length (PR_Reviews small_pr) + length (PR_Commits small_pr) \<and>
   length (PR_Comments small_pr) + length (PR_Reviews small_pr) + length (PR_Commits small_pr) = 3 \<and>
   review_item (review_of 101 20) \<in> set (timeline insertion_sorter small_pr) \<and>
   Type (review_item (review_of 101 20)) = ''review'' \<and>
   Item_CreatedAt (review_item (review_of 101 20)) = SubmittedAt (review_of 101 20) \<and>
   mset (List.map_filter Item_Comment (timeline insertion_sorter small_pr)) =
     mset (PR_Comments small_pr) \<and>
   sorted (map Item_CreatedAt (timeline insertion_sorter small_pr))"
proof -
  note t = timeline_covers_sources_and_ascends [OF sorts_insertion_sorter, of small_pr]
  have n: "length (PR_Comments small_pr) + length (PR_Reviews small_pr) +
      length (PR_Commits small_pr) = 3"
    by (simp add: small_pr_def)
  have r: "review_item (review_of 101 20) \<in> set (timeline insertion_sorter small_pr)"
    by (simp add: small_timeline)
  have y: "Type (review_item (review_of 101 20)) = ''review'' \<and>
      Item_CreatedAt (review_item (review_of 101 20)) = SubmittedAt (review_of 101 20)"
    by (simp add: review_item_def)
  from t sorts_insertion_sorter small_timeline n r y show ?thesis
    by blast
qed



text \<open>
  C9. For every review, the reply count attached to it by \<^verbatim>\<open>LoadPR\<close> is the number of
  input review comments that have a parent reference and carry that review's id; the
  threads play no part in it.
\<close>

theorem reply_count_counts_replies_of_review:
  assumes "annotate_reviews alg reviews reviewComments = Some annotated"
    and "i < length reviews"
  shows "Review_ID (annotated ! i) = Review_ID (reviews ! i) \<and>
         ReplyCount (annotated ! i) =
           int (length (filter (\<lambda>c. InReplyToID c \<noteq> None \<and>
                                       PullRequestReviewID c = Review_ID (reviews ! i))
                               reviewComments))"
  using assms by (auto simp: annotate_reviews_def replyCountByReview_at split: option.splits)

theorem reply_count_counts_replies_of_review_witness:
  "annotate_reviews insertion_sorter two_reviews two_reviews_comments =
     Some [(review_of 101 20)\<lparr>Threads := [\<lparr>Comments = two_reviews_comments\<rparr>], ReplyCount := 0\<rparr>,
           (review_of 102 21)\<lparr>Threads := [], ReplyCount := 1\<rparr>] \<and>
   (1::nat) < length two_reviews \<and>
   ReplyCount ([(review_of 101 20)\<lparr>Threads := [\<lparr>Comments = two_reviews_comments\<rparr>], ReplyCount := 0\<rparr>,
                (review_of 102 21)\<lparr>Threads := [], ReplyCount := 1\<rparr>] ! 1) =
     int (length (filter (\<lambda>c. InReplyToID c \<noteq> None \<and>
                                 PullRequestReviewID c = Review_ID (two_reviews ! 1))
                         two_reviews_comments)) \<and>
   length (filter (\<lambda>c. InReplyToID c \<noteq> None \<and>
                        PullRequestReviewID c = Review_ID (two_reviews ! 1))
                  two_reviews_comments) = 1"
proof -
  have a: "annotate_reviews insertion_sorter two_reviews two_reviews_comments =
     Some [(review_of 101 20)\<lparr>Threads := [\<lparr>Comments = two_reviews_comments\<rparr>], ReplyCount := 0\<rparr>,
           (review_of 102 21)\<lparr>Threads := [], ReplyCount := 1\<rparr>]"
    by (simp add: run_defs two_reviews_def two_reviews_comments_def)
  have l: "(1::nat) < length two_reviews"
    by (simp add: two_reviews_def)
  have n: "length (filter (\<lambda>c. InReplyToID c \<noteq> None \<and>
                        PullRequestReviewID c = Review_ID (two_reviews ! 1))
                  two_reviews_comments) = 1"
    by (simp add: two_reviews_def two_reviews_comments_def comment_of_def review_of_def)
  from reply_count_counts_replies_of_review [OF a l] a l n show ?thesis
    by blast
qed



end
